theory Spec2Isabelle
  imports Complex_Main "HOL-Library.AList" "HOL-Library.Word"
begin

section \<open>Data model\<close>

text \<open>
  \<open>NodeID\<close> is a Python integer below \<open>2 ^ 256\<close> (\<open>NodeID(secrets.randbits(256))\<close>) and a
  session id is a \<open>uuid.UUID\<close>; neither is ever computed with here, only compared.
  \<open>Endpoint\<close> is the named tuple of \<open>abc.py\<close>; \<open>Node\<close> is built as
  \<open>Node(node_id, endpoint)\<close> and read through \<open>.node_id\<close>.
\<close>

type_synonym NodeID = nat

type_synonym UUID = nat

datatype Endpoint = Endpoint (ip_address: "32 word") (port: int)

datatype Node = Node (node_id: NodeID) (endpoint: Endpoint)

datatype error = SessionNotFound | DuplicateSession | KeyError

section \<open>Sessions\<close>

text \<open>
  Modelled from the spec: \<open>session.py\<close> (the classes \<open>SessionInitiator\<close> and
  \<open>SessionRecipient\<close>) is not among the sources. The spec gives a session its remote node
  descriptor, its role (initiator or recipient) and a last-activity timestamp; the pool
  reads the attributes \<open>session_id\<close>, \<open>remote_node_id\<close> and \<open>last_message_at\<close>. The
  fresh UUID and the clock reading a constructor takes from its environment are explicit
  arguments. Timestamps are seconds of \<open>time.monotonic()\<close>, taken as real numbers.
\<close>

datatype Role = Initiator | Recipient

record Session =
  session_id :: UUID
  remote_node :: Node
  role :: Role
  last_message_at :: real

text \<open>
  Modelled from the spec: the property \<open>remote_node_id\<close> of a session, the id of the
  remote node descriptor it carries.
\<close>

definition remote_node_id :: "Session \<Rightarrow> NodeID" where
  "remote_node_id s = node_id (remote_node s)"

text \<open>
  Modelled from the spec: the constructors of the two session classes, called in the source
  with \<open>remote_node=remote_node\<close>; \<open>sid\<close> is the fresh UUID and \<open>t\<close> the clock reading.
\<close>

definition SessionInitiator :: "UUID \<Rightarrow> real \<Rightarrow> Node \<Rightarrow> Session" where
  "SessionInitiator sid t n =
     \<lparr>session_id = sid, remote_node = n, role = Initiator, last_message_at = t\<rparr>"

definition SessionRecipient :: "UUID \<Rightarrow> real \<Rightarrow> Node \<Rightarrow> Session" where
  "SessionRecipient sid t n =
     \<lparr>session_id = sid, remote_node = n, role = Recipient, last_message_at = t\<rparr>"

section \<open>The session pool (\<open>pool.py\<close>)\<close>

text \<open>
  \<open>Pool._sessions\<close> is a Python dict: an association list in insertion order. Storing
  under a new key appends, \<open>pop\<close> deletes the key. Every method takes the pool and
  returns its result together with the pool afterwards; a raised exception is \<open>Inl\<close>.
\<close>

record Pool =
  sessions :: "(NodeID \<times> Session) list"

definition Pool_init :: Pool where
  "Pool_init = \<lparr>sessions = []\<rparr>"

text \<open>
  \<open>SESSION_IDLE_TIMEOUT\<close> comes from \<open>constants.py\<close>, which is not among the sources, and
  \<open>now\<close> is the reading of \<open>time.monotonic()\<close>: both are arguments.
\<close>

definition get_idle_sesssions :: "real \<Rightarrow> real \<Rightarrow> Pool \<Rightarrow> Session list \<times> Pool" where
  "get_idle_sesssions SESSION_IDLE_TIMEOUT now p =
     (let timed_out_at = now - SESSION_IDLE_TIMEOUT
      in (filter (\<lambda>session. last_message_at session \<le> timed_out_at) (map snd (sessions p)), p))"

text \<open>
  The loop of \<open>remove_session\<close>: \<open>dict.pop(key)\<close> without a default raises \<open>KeyError\<close>
  when the key is absent, leaving the dict as the earlier pops made it.
\<close>

fun pop_sessions ::
  "Session list \<Rightarrow> (NodeID \<times> Session) list \<Rightarrow> (error + unit) \<times> (NodeID \<times> Session) list" where
  "pop_sessions [] d = (Inr (), d)"
| "pop_sessions (session # rest) d =
     (if remote_node_id session \<in> fst ` set d
      then pop_sessions rest (AList.delete (remote_node_id session) d)
      else (Inl KeyError, d))"

text \<open>
  \<open>to_remove\<close> is a Python set (no duplicates); its iteration order is not fixed by the
  language, the model walks it in the order of the dict. A session object is told apart
  by its field values, among them its own \<open>session_id\<close>.
\<close>

definition remove_session :: "UUID \<Rightarrow> Pool \<Rightarrow> (error + bool) \<times> Pool" where
  "remove_session sid p =
     (let to_remove = remdups (filter (\<lambda>session. session_id session = sid) (map snd (sessions p)))
      in case pop_sessions to_remove (sessions p) of
           (Inl e, d) \<Rightarrow> (Inl e, p\<lparr>sessions := d\<rparr>)
         | (Inr _, d) \<Rightarrow> (Inr (to_remove \<noteq> []), p\<lparr>sessions := d\<rparr>))"

definition has_session :: "NodeID \<Rightarrow> Pool \<Rightarrow> bool \<times> Pool" where
  "has_session remote_id p = (remote_id \<in> fst ` set (sessions p), p)"

definition get_session :: "NodeID \<Rightarrow> Pool \<Rightarrow> (error + Session) \<times> Pool" where
  "get_session remote_id p =
     (case map_of (sessions p) remote_id of
        None \<Rightarrow> (Inl SessionNotFound, p)
      | Some session \<Rightarrow> (Inr session, p))"

definition create_session ::
  "UUID \<Rightarrow> real \<Rightarrow> Node \<Rightarrow> bool \<Rightarrow> Pool \<Rightarrow> (error + Session) \<times> Pool" where
  "create_session sid t remote is_initiator p =
     (if node_id remote \<in> fst ` set (sessions p) then (Inl DuplicateSession, p)
      else
        let session = (if is_initiator then SessionInitiator sid t remote
                       else SessionRecipient sid t remote)
        in (Inr session, p\<lparr>sessions := AList.update (node_id remote) session (sessions p)\<rparr>))"

text \<open>
  The invariant of the dict of a pool: keys are unique, and every session is filed under
  the id of its own remote node.
\<close>

definition pool_inv :: "Pool \<Rightarrow> bool" where
  "pool_inv p \<longleftrightarrow>
     distinct (map fst (sessions p)) \<and>
     list_all (\<lambda>(k, session). remote_node_id session = k) (sessions p)"

text \<open>A call of one of the five public methods, with the inputs it takes.\<close>

datatype call =
    CreateSession UUID real Node bool
  | RemoveSession UUID
  | GetSession NodeID
  | HasSession NodeID
  | GetIdleSessions real real

fun step :: "call \<Rightarrow> Pool \<Rightarrow> Pool" where
  "step (CreateSession sid t remote is_initiator) p = snd (create_session sid t remote is_initiator p)"
| "step (RemoveSession sid) p = snd (remove_session sid p)"
| "step (GetSession remote_id) p = snd (get_session remote_id p)"
| "step (HasSession remote_id) p = snd (has_session remote_id p)"
| "step (GetIdleSessions timeout now) p = snd (get_idle_sesssions timeout now p)"

definition run :: "call list \<Rightarrow> Pool \<Rightarrow> Pool" where
  "run calls p = fold step calls p"

section \<open>The routing table\<close>

text \<open>
  Modelled from the spec: \<open>routing_table.py\<close> (the class behind \<open>RoutingTableAPI\<close>) is not
  among the sources. The spec gives 256 buckets indexed by log-distances 1 to 256, each an
  ordered sequence of node ids with the most recently seen last, and one replacement cache
  per bucket, filled at its tail.
\<close>

text \<open>Modelled from the spec: the number of buckets, "an array of 256 buckets".\<close>

definition NUM_BUCKETS :: nat where
  "NUM_BUCKETS = 256"

text \<open>
  Modelled from the spec: the state of the missing routing table, the bucket and the
  replacement cache at each log-distance, both oldest first.
\<close>

record RoutingTable =
  buckets :: "nat \<Rightarrow> NodeID list"
  replacement_caches :: "nat \<Rightarrow> NodeID list"

text \<open>
  Modelled from the spec: \<open>is_empty\<close> of the missing routing table; the spec names it without
  defining it, and it is taken to say that no bucket holds a node.
\<close>

definition is_empty :: "RoutingTable \<Rightarrow> bool" where
  "is_empty rt \<longleftrightarrow> list_all (\<lambda>d. buckets rt d = []) [1..<Suc NUM_BUCKETS]"

text \<open>
  Modelled from the spec: \<open>get_nodes_at_log_distance\<close> of the missing routing table, "bucket
  contents, tail-first (most-recent-first)". The spec has no bucket outside log-distances 1
  to 256; there the model gives no result.
\<close>

definition get_nodes_at_log_distance :: "RoutingTable \<Rightarrow> nat \<Rightarrow> NodeID list option" where
  "get_nodes_at_log_distance rt log_distance =
     (if 1 \<le> log_distance \<and> log_distance \<le> NUM_BUCKETS
      then Some (rev (buckets rt log_distance)) else None)"

text \<open>
  Modelled from the spec: \<open>remove\<close> of the missing routing table, "remove from bucket; if any
  replacement-cache candidate exists, promote its most-recent entry into the bucket at the
  tail". The bucket is the one that holds the node.
\<close>

definition remove :: "NodeID \<Rightarrow> RoutingTable \<Rightarrow> RoutingTable" where
  "remove n rt =
     rt\<lparr>buckets := (\<lambda>d.
            if n \<in> set (buckets rt d)
            then removeAll n (buckets rt d) @
                 (if replacement_caches rt d = [] then [] else [last (replacement_caches rt d)])
            else buckets rt d),
        replacement_caches := (\<lambda>d.
            if n \<in> set (buckets rt d) then butlast (replacement_caches rt d)
            else replacement_caches rt d)\<rparr>"

section \<open>The routing-table manager (\<open>routing_table_manager.py\<close>)\<close>

text \<open>
  Modelled from the spec: \<open>payloads.py\<close> is not among the sources; the spec lists
  \<open>Ping {request_id, enr_seq}\<close> and \<open>FindNodes {request_id, distance}\<close>. An inbound message
  carries the sending node and the payload of the subscribed type, read in the source as
  \<open>request.node\<close> and \<open>request.payload\<close>.
\<close>

record Ping =
  request_id :: nat
  enr_seq :: nat

record FindNodes =
  request_id :: nat
  distance :: nat

record 'p Message =
  node :: Node
  payload :: 'p

text \<open>
  What a daemon asks of the client and the network, in the order of the calls:
  \<open>client.send_pong\<close>, \<open>client.send_found_nodes\<close>, \<open>client.ping\<close> under
  \<open>trio.move_on_after(PING_TIMEOUT)\<close>, \<open>network.iterative_lookup\<close>, and
  \<open>nursery.start_soon(self._verify_node, node)\<close>.
\<close>

datatype Effect =
    SendPong Node nat
  | SendFoundNodes Node nat "Node list"
  | PingWithTimeout Node real
  | IterativeLookup NodeID
  | StartVerifyNode Node



text \<open>
  \<open>_pong_when_pinged\<close>: the loop receives the subscribed \<open>Ping\<close> messages one after the
  other; the list is what arrives while the service runs.
\<close>

fun pong_when_pinged :: "Ping Message list \<Rightarrow> Effect list" where
  "pong_when_pinged [] = []"
| "pong_when_pinged (request # inbound) =
     SendPong (node request) (Ping.request_id (payload request)) # pong_when_pinged inbound"

text \<open>
  The \<open>for\<close> loop of \<open>_ping_occasionally\<close>. \<open>answers node t\<close> says whether \<open>client.ping(node)\<close>
  returns before \<open>move_on_after(t)\<close> cancels it; \<open>PING_TIMEOUT\<close> is a constant of
  \<open>constants.py\<close>, not among the sources, and is an argument.
\<close>

fun ping_candidates ::
  "(Node \<Rightarrow> real \<Rightarrow> bool) \<Rightarrow> real \<Rightarrow> (NodeID \<Rightarrow> Endpoint) \<Rightarrow> NodeID list \<Rightarrow> RoutingTable
     \<Rightarrow> Effect list \<times> RoutingTable" where
  "ping_candidates answers PING_TIMEOUT get_endpoint [] rt = ([], rt)"
| "ping_candidates answers PING_TIMEOUT get_endpoint (node_id' # rest) rt =
     (let endpoint' = get_endpoint node_id';
          node' = Node node_id' endpoint'
      in if \<not> answers node' PING_TIMEOUT
         then (case ping_candidates answers PING_TIMEOUT get_endpoint rest (remove node_id' rt) of
                 (effects, rt') \<Rightarrow> (PingWithTimeout node' PING_TIMEOUT # effects, rt'))
         else ([PingWithTimeout node' PING_TIMEOUT], rt))"

text \<open>
  One round of \<open>_ping_occasionally\<close>. The spec's buckets carry no time stamps from which
  \<open>get_least_recently_updated_log_distance\<close> could be computed, so the choice of the missing
  routing table is the argument \<open>lru_log_distance\<close>.
\<close>

definition ping_occasionally ::
  "(RoutingTable \<Rightarrow> nat) \<Rightarrow> (Node \<Rightarrow> real \<Rightarrow> bool) \<Rightarrow> real \<Rightarrow> (NodeID \<Rightarrow> Endpoint) \<Rightarrow> RoutingTable
     \<Rightarrow> (Effect list \<times> RoutingTable) option" where
  "ping_occasionally lru_log_distance answers PING_TIMEOUT get_endpoint rt =
     (if is_empty rt then Some ([], rt)
      else
        let log_distance = lru_log_distance rt
        in case get_nodes_at_log_distance rt log_distance of
             None \<Rightarrow> None
           | Some candidates \<Rightarrow>
               Some (ping_candidates answers PING_TIMEOUT get_endpoint (rev candidates) rt))"

text \<open>
  One round of \<open>_lookup_occasionally\<close>: \<open>target_node_id\<close> is the drawn
  \<open>NodeID(secrets.randbits(256))\<close>, \<open>found\<close> gives what \<open>network.iterative_lookup\<close> returns.
\<close>

definition lookup_occasionally ::
  "NodeID \<Rightarrow> (NodeID \<Rightarrow> Node list) \<Rightarrow> RoutingTable \<Rightarrow> Effect list" where
  "lookup_occasionally target_node_id found rt =
     (if is_empty rt then []
      else
        let found_nodes = found target_node_id
        in IterativeLookup target_node_id # map StartVerifyNode found_nodes)"

section \<open>Sample values\<close>

definition node_a :: Node where
  "node_a = Node 1 (Endpoint 2130706433 30303)"

definition node_b :: Node where
  "node_b = Node 2 (Endpoint 2130706433 30304)"

definition session_a :: Session where
  "session_a = SessionInitiator 7 0 node_a"

definition pool_a :: Pool where
  "pool_a = \<lparr>sessions = [(1, session_a)]\<rparr>"

definition endpoint_a :: "NodeID \<Rightarrow> Endpoint" where
  "endpoint_a n = Endpoint 2130706433 (30000 + int n)"

definition table_a :: RoutingTable where
  "table_a = \<lparr>buckets = (\<lambda>d. if d = 255 then [10, 11, 12] else []),
              replacement_caches = (\<lambda>d. if d = 255 then [20, 21] else [])\<rparr>"

definition table_empty :: RoutingTable where
  "table_empty = \<lparr>buckets = (\<lambda>d. []), replacement_caches = (\<lambda>d. [])\<rparr>"

definition ping_a :: "Ping Message" where
  "ping_a = \<lparr>node = node_a, payload = \<lparr>Ping.request_id = 16909060, enr_seq = 0\<rparr>\<rparr>"

definition ping_b :: "Ping Message" where
  "ping_b = \<lparr>node = node_b, payload = \<lparr>Ping.request_id = 5, enr_seq = 3\<rparr>\<rparr>"

section \<open>Properties of the session pool\<close>

subsection \<open>Dict operations\<close>

lemma update_absent: "k \<notin> fst ` set d \<Longrightarrow> AList.update k v d = d @ [(k, v)]"
  by (induction d) auto

lemma dom_delete: "fst ` set (AList.delete k d) = fst ` set d - {k}"
  by (induction d) auto

lemma delete_then_filter:
  "filter (\<lambda>(k, _). k \<notin> A) (AList.delete a d) = filter (\<lambda>(k, _). k \<notin> insert a A) d"
  by (induction d) auto

lemma pop_sessions_ok:
  "distinct (map remote_node_id ss) \<Longrightarrow> remote_node_id ` set ss \<subseteq> fst ` set d \<Longrightarrow>
   pop_sessions ss d = (Inr (), filter (\<lambda>(k, _). k \<notin> remote_node_id ` set ss) d)"
proof (induction ss arbitrary: d)
  case Nil
  then show ?case by simp
next
  case (Cons s ss)
  have notin: "remote_node_id s \<notin> remote_node_id ` set ss" using Cons.prems(1) by simp
  have dist: "distinct (map remote_node_id ss)" using Cons.prems(1) by simp
  have here: "remote_node_id s \<in> fst ` set d" using Cons.prems(2) by simp
  have rest: "remote_node_id ` set ss \<subseteq> fst ` set d" using Cons.prems(2) by simp
  have sub: "remote_node_id ` set ss \<subseteq> fst ` set (AList.delete (remote_node_id s) d)"
    unfolding dom_delete using notin rest by blast
  have "pop_sessions (s # ss) d = pop_sessions ss (AList.delete (remote_node_id s) d)"
    using here by simp
  also have "\<dots> = (Inr (), filter (\<lambda>(k, _). k \<notin> remote_node_id ` set ss) (AList.delete (remote_node_id s) d))"
    by (rule Cons.IH[OF dist sub])
  also have "filter (\<lambda>(k, _). k \<notin> remote_node_id ` set ss) (AList.delete (remote_node_id s) d)
      = filter (\<lambda>(k, _). k \<notin> remote_node_id ` set (s # ss)) d"
    by (simp add: delete_then_filter)
  finally show ?case .
qed

subsection \<open>Consequences of the invariant\<close>

lemma inv_key: "pool_inv p \<Longrightarrow> (k, s) \<in> set (sessions p) \<Longrightarrow> remote_node_id s = k"
  unfolding pool_inv_def list_all_iff by blast

lemma inv_values_keys:
  "pool_inv p \<Longrightarrow> map remote_node_id (map snd (sessions p)) = map fst (sessions p)"
  unfolding pool_inv_def list_all_iff by (simp add: case_prod_beta)

lemma inv_to_remove_distinct:
  assumes "pool_inv p"
  shows "distinct (map remote_node_id (remdups (filter Q (map snd (sessions p)))))"
proof -
  have d: "distinct (map remote_node_id (map snd (sessions p)))"
  proof -
    have "distinct (map fst (sessions p))" using assms by (simp add: pool_inv_def)
    then show ?thesis by (simp only: inv_values_keys[OF assms])
  qed
  then have "distinct (map snd (sessions p))"
    using distinct_map[of remote_node_id "map snd (sessions p)"] by blast
  then have eq: "remdups (filter Q (map snd (sessions p))) = filter Q (map snd (sessions p))"
    by (intro distinct_remdups_id distinct_filter)
  have "distinct (map remote_node_id (filter Q (map snd (sessions p))))"
    using d by (rule distinct_map_filter)
  then show ?thesis unfolding eq .
qed

lemma inv_to_remove_present:
  assumes "pool_inv p"
  shows "remote_node_id ` set (remdups (filter Q (map snd (sessions p)))) \<subseteq> fst ` set (sessions p)"
proof
  fix k assume "k \<in> remote_node_id ` set (remdups (filter Q (map snd (sessions p))))"
  then obtain s where s: "s \<in> snd ` set (sessions p)" "remote_node_id s = k" by auto
  then obtain k' where k': "(k', s) \<in> set (sessions p)" by auto
  with inv_key[OF assms k'] s show "k \<in> fst ` set (sessions p)" by force
qed

lemma inv_filter_ids:
  assumes "pool_inv p"
  shows "filter (\<lambda>(k, _). k \<notin> remote_node_id ` set (remdups (filter (\<lambda>s. session_id s = sid) (map snd (sessions p))))) (sessions p)
       = filter (\<lambda>(k, s). session_id s \<noteq> sid) (sessions p)"
proof (rule filter_cong[OF refl])
  fix x assume x: "x \<in> set (sessions p)"
  obtain k s where ks: "x = (k, s)" by (cases x)
  have d: "distinct (map fst (sessions p))" using assms by (simp add: pool_inv_def)
  let ?R = "remdups (filter (\<lambda>s. session_id s = sid) (map snd (sessions p)))"
  have "k \<in> remote_node_id ` set ?R \<longleftrightarrow> session_id s = sid"
  proof
    assume "k \<in> remote_node_id ` set ?R"
    then obtain s' where s': "s' \<in> snd ` set (sessions p)" "session_id s' = sid" "remote_node_id s' = k"
      by auto
    then obtain k' where m: "(k', s') \<in> set (sessions p)" by auto
    have "k' = k" using inv_key[OF assms m] s'(3) by simp
    then have "s' = s" using d m x ks by (metis eq_key_imp_eq_value)
    then show "session_id s = sid" using s'(2) by simp
  next
    assume a: "session_id s = sid"
    have "s \<in> snd ` set (sessions p)" using x ks by force
    moreover have "remote_node_id s = k" using inv_key[OF assms] x ks by simp
    ultimately show "k \<in> remote_node_id ` set ?R" using a by force
  qed
  then show "(case x of (k, _) \<Rightarrow> k \<notin> remote_node_id ` set ?R)
     = (case x of (k, s) \<Rightarrow> session_id s \<noteq> sid)"
    unfolding ks by simp
qed

lemma remove_session_under_inv:
  assumes inv: "pool_inv p"
  shows "remove_session sid p =
        (Inr (sid \<in> session_id ` snd ` set (sessions p)),
         p\<lparr>sessions := filter (\<lambda>(k, s). session_id s \<noteq> sid) (sessions p)\<rparr>)"
proof -
  let ?R = "remdups (filter (\<lambda>s. session_id s = sid) (map snd (sessions p)))"
  have pop: "pop_sessions ?R (sessions p) = (Inr (), filter (\<lambda>(k, s). session_id s \<noteq> sid) (sessions p))"
    using pop_sessions_ok[OF inv_to_remove_distinct[OF inv] inv_to_remove_present[OF inv]]
    by (simp only: inv_filter_ids[OF inv])
  have ne: "?R \<noteq> [] \<longleftrightarrow> sid \<in> session_id ` snd ` set (sessions p)"
    by (auto simp: filter_empty_conv)
  show ?thesis
    unfolding remove_session_def Let_def pop using ne by simp
qed

lemma remove_session_no_match:
  assumes no: "sid \<notin> session_id ` snd ` set (sessions p)"
  shows "remove_session sid p = (Inr False, p)"
proof -
  have "filter (\<lambda>s. session_id s = sid) (map snd (sessions p)) = []"
    using no by (auto simp: filter_empty_conv)
  then show ?thesis
    by (simp add: remove_session_def)
qed

lemma step_inv: "pool_inv p \<Longrightarrow> pool_inv (step c p)"
proof (cases c)
  case (CreateSession sid t n ini)
  assume inv: "pool_inv p"
  show ?thesis
  proof (cases "node_id n \<in> fst ` set (sessions p)")
    case True
    then show ?thesis using inv CreateSession by (simp add: create_session_def)
  next
    case False
    then show ?thesis using inv CreateSession
      by (simp add: create_session_def Let_def update_absent pool_inv_def remote_node_id_def
          SessionInitiator_def SessionRecipient_def)
  qed
next
  case (RemoveSession sid)
  assume inv: "pool_inv p"
  have "distinct (map fst (filter (\<lambda>(k, s). session_id s \<noteq> sid) (sessions p)))"
    using inv by (simp add: pool_inv_def distinct_map_filter)
  moreover have "list_all (\<lambda>(k, session). remote_node_id session = k)
      (filter (\<lambda>(k, s). session_id s \<noteq> sid) (sessions p))"
    using inv by (simp add: pool_inv_def list_all_iff)
  ultimately show ?thesis using RemoveSession remove_session_under_inv[OF inv, of sid]
    by (simp add: pool_inv_def)
qed (simp_all add: get_session_def has_session_def get_idle_sesssions_def split: option.splits)

lemma run_inv: "pool_inv p \<Longrightarrow> pool_inv (run calls p)"
  unfolding run_def by (induction calls arbitrary: p) (simp_all add: step_inv)

lemma Pool_init_inv: "pool_inv Pool_init"
  by (simp add: pool_inv_def Pool_init_def)

subsection \<open>The claims about the pool\<close>

text \<open>
  C1. When the pool already holds a session for \<open>n.node_id\<close>, \<open>create_session\<close> raises
  \<open>DuplicateSession\<close> and leaves the pool as it was; when it holds none, the call returns a
  session and the dict afterwards is the old one with that single session appended under
  \<open>n.node_id\<close>.
\<close>

theorem create_session_duplicate_or_registers:
  "(node_id n \<in> fst ` set (sessions p) \<longrightarrow>
      create_session sid t n ini p = (Inl DuplicateSession, p)) \<and>
   (node_id n \<notin> fst ` set (sessions p) \<longrightarrow>
      (\<exists>s. create_session sid t n ini p =
             (Inr s, p\<lparr>sessions := sessions p @ [(node_id n, s)]\<rparr>)))"
  by (simp add: create_session_def Let_def update_absent)

theorem create_session_duplicate_or_registers_witness:
  "node_id node_a \<in> fst ` set (sessions pool_a) \<and>
   create_session 8 5 node_a False pool_a = (Inl DuplicateSession, pool_a) \<and>
   node_id node_b \<notin> fst ` set (sessions pool_a) \<and>
   (\<exists>s. create_session 8 5 node_b False pool_a =
      (Inr s, pool_a\<lparr>sessions := sessions pool_a @ [(node_id node_b, s)]\<rparr>))"
proof -
  have dup: "node_id node_a \<in> fst ` set (sessions pool_a)"
    by (simp add: node_a_def pool_a_def)
  have new: "node_id node_b \<notin> fst ` set (sessions pool_a)"
    by (simp add: node_b_def pool_a_def)
  from create_session_duplicate_or_registers[of node_a pool_a 8 5 False]
       create_session_duplicate_or_registers[of node_b pool_a 8 5 False] dup new
  show ?thesis by blast
qed

text \<open>
  C2. \<open>get_session\<close> returns the session the dict holds for the node id, raises
  \<open>SessionNotFound\<close> when the id is not a key, and leaves the pool as it was either way.
\<close>

theorem get_session_found_or_not:
  "(map_of (sessions p) k = Some s \<longrightarrow> get_session k p = (Inr s, p)) \<and>
   (k \<notin> fst ` set (sessions p) \<longrightarrow> get_session k p = (Inl SessionNotFound, p))"
  by (auto simp: get_session_def map_of_eq_None_iff[symmetric])

theorem get_session_found_or_not_witness:
  "map_of (sessions pool_a) 1 = Some session_a \<and> get_session 1 pool_a = (Inr session_a, pool_a) \<and>
   2 \<notin> fst ` set (sessions pool_a) \<and> get_session 2 pool_a = (Inl SessionNotFound, pool_a)"
proof -
  have found: "map_of (sessions pool_a) 1 = Some session_a" by (simp add: pool_a_def)
  have missing: "2 \<notin> fst ` set (sessions pool_a)" by (simp add: pool_a_def)
  from get_session_found_or_not[of pool_a 1 session_a] get_session_found_or_not[of pool_a 2] found missing
  show ?thesis by blast
qed

text \<open>
  C3. In a pool whose dict satisfies the invariant, \<open>remove_session\<close> raises nothing, keeps
  exactly the entries whose session has another \<open>session_id\<close>, and returns whether there
  was one to remove. In any pool, when no stored session has the given \<open>session_id\<close>, it
  returns \<open>False\<close> and leaves the pool as it was.
\<close>

theorem remove_session_removes_matching:
  "(pool_inv p \<longrightarrow>
      remove_session sid p =
        (Inr (sid \<in> session_id ` snd ` set (sessions p)),
         p\<lparr>sessions := filter (\<lambda>(k, s). session_id s \<noteq> sid) (sessions p)\<rparr>)) \<and>
   (sid \<notin> session_id ` snd ` set (sessions p) \<longrightarrow> remove_session sid p = (Inr False, p))"
  using remove_session_under_inv remove_session_no_match by blast

theorem remove_session_removes_matching_witness:
  "pool_inv pool_a \<and> remove_session 7 pool_a = (Inr True, \<lparr>sessions = []\<rparr>) \<and>
   9 \<notin> session_id ` snd ` set (sessions pool_a) \<and> remove_session 9 pool_a = (Inr False, pool_a)"
proof -
  have inv: "pool_inv pool_a"
    by (simp add: pool_inv_def pool_a_def session_a_def SessionInitiator_def node_a_def remote_node_id_def)
  have none: "9 \<notin> session_id ` snd ` set (sessions pool_a)"
    by (simp add: pool_a_def session_a_def SessionInitiator_def)
  have "remove_session 7 pool_a =
        (Inr (7 \<in> session_id ` snd ` set (sessions pool_a)),
         pool_a\<lparr>sessions := filter (\<lambda>(k, s). session_id s \<noteq> 7) (sessions pool_a)\<rparr>)"
    using remove_session_removes_matching[of pool_a 7] inv by blast
  then have "remove_session 7 pool_a = (Inr True, \<lparr>sessions = []\<rparr>)"
    by (simp add: pool_a_def session_a_def SessionInitiator_def)
  moreover have "remove_session 9 pool_a = (Inr False, pool_a)"
    using remove_session_removes_matching[of pool_a 9] none by blast
  ultimately show ?thesis using inv none by blast
qed

text \<open>
  C4, as stated, fails on the boundary: with \<open>SESSION_IDLE_TIMEOUT = 60\<close> and the clock at
  \<open>60\<close>, a session whose last message came at \<open>0\<close> is returned, although \<open>0\<close> is not
  earlier than \<open>60 - 60\<close>.
\<close>

theorem idle_boundary_counterexample:
  "session_a \<in> set (fst (get_idle_sesssions 60 60 pool_a)) \<and>
   \<not> last_message_at session_a < 60 - 60"
  by (simp add: get_idle_sesssions_def pool_a_def session_a_def SessionInitiator_def)

text \<open>
  C4, amended. \<open>get_idle_sesssions\<close> returns, in the order of the dict, exactly the stored
  sessions whose \<open>last_message_at\<close> is at or before \<open>now - SESSION_IDLE_TIMEOUT\<close>, none whose
  \<open>last_message_at\<close> is later, and leaves the pool as it was.
\<close>

theorem get_idle_sesssions_at_or_before_threshold:
  "fst (get_idle_sesssions SESSION_IDLE_TIMEOUT now p) =
     filter (\<lambda>s. last_message_at s \<le> now - SESSION_IDLE_TIMEOUT) (map snd (sessions p)) \<and>
   (s \<in> set (fst (get_idle_sesssions SESSION_IDLE_TIMEOUT now p)) \<longleftrightarrow>
      s \<in> snd ` set (sessions p) \<and> last_message_at s \<le> now - SESSION_IDLE_TIMEOUT) \<and>
   snd (get_idle_sesssions SESSION_IDLE_TIMEOUT now p) = p"
  by (auto simp: get_idle_sesssions_def)

text \<open>
  C8. Starting from the empty pool of \<open>__init__\<close>, after any sequence of calls of
  \<open>create_session\<close>, \<open>remove_session\<close>, \<open>get_session\<close>, \<open>has_session\<close> and
  \<open>get_idle_sesssions\<close> the keys of the dict are pairwise different, every stored session is
  filed under its own \<open>remote_node_id\<close>, and two entries for the same remote node are the
  same entry.
\<close>

theorem pool_one_session_per_remote_node:
  assumes "p = run calls Pool_init"
  shows "distinct (map fst (sessions p)) \<and>
         (\<forall>k s. (k, s) \<in> set (sessions p) \<longrightarrow> remote_node_id s = k) \<and>
         (\<forall>k s k' s'. (k, s) \<in> set (sessions p) \<and> (k', s') \<in> set (sessions p) \<and>
              remote_node_id s = remote_node_id s' \<longrightarrow> k = k' \<and> s = s')"
proof -
  have inv: "pool_inv p" unfolding assms by (rule run_inv[OF Pool_init_inv])
  have d: "distinct (map fst (sessions p))" using inv by (simp add: pool_inv_def)
  have key: "\<And>k s. (k, s) \<in> set (sessions p) \<Longrightarrow> remote_node_id s = k"
    using inv_key[OF inv] .
  have "k = k' \<and> s = s'"
    if "(k, s) \<in> set (sessions p)" "(k', s') \<in> set (sessions p)"
       "remote_node_id s = remote_node_id s'" for k s k' s'
  proof -
    have "k = k'" using key[OF that(1)] key[OF that(2)] that(3) by simp
    moreover have "s = s'" using d that(1,2) \<open>k = k'\<close> by (metis eq_key_imp_eq_value)
    ultimately show ?thesis by simp
  qed
  then show ?thesis using d key by blast
qed

theorem pool_one_session_per_remote_node_witness:
  "run [CreateSession 7 0 node_a True, CreateSession 8 1 node_a False,
        CreateSession 9 2 node_b False, HasSession 1, GetSession 2,
        GetIdleSessions 60 100, RemoveSession 7] Pool_init
     = \<lparr>sessions = [(2, SessionRecipient 9 2 node_b)]\<rparr> \<and>
   remote_node_id (SessionRecipient 9 2 node_b) = 2"
proof -
  let ?b = "SessionRecipient 9 2 node_b"
  have s1: "step (CreateSession 7 0 node_a True) Pool_init = \<lparr>sessions = [(1, session_a)]\<rparr>"
    by (simp add: create_session_def Pool_init_def node_a_def session_a_def Let_def)
  have s2: "step (CreateSession 8 1 node_a False) \<lparr>sessions = [(1, session_a)]\<rparr>
      = \<lparr>sessions = [(1, session_a)]\<rparr>"
    by (simp add: create_session_def node_a_def Let_def)
  have s3: "step (CreateSession 9 2 node_b False) \<lparr>sessions = [(1, session_a)]\<rparr>
      = \<lparr>sessions = [(1, session_a), (2, ?b)]\<rparr>"
    by (simp add: create_session_def node_b_def Let_def)
  have s4: "step (HasSession 1) \<lparr>sessions = [(1, session_a), (2, ?b)]\<rparr>
      = \<lparr>sessions = [(1, session_a), (2, ?b)]\<rparr>"
    by (simp add: has_session_def)
  have s5: "step (GetSession 2) \<lparr>sessions = [(1, session_a), (2, ?b)]\<rparr>
      = \<lparr>sessions = [(1, session_a), (2, ?b)]\<rparr>"
    by (simp add: get_session_def)
  have s6: "step (GetIdleSessions 60 100) \<lparr>sessions = [(1, session_a), (2, ?b)]\<rparr>
      = \<lparr>sessions = [(1, session_a), (2, ?b)]\<rparr>"
    by (simp add: get_idle_sesssions_def)
  have s7: "step (RemoveSession 7) \<lparr>sessions = [(1, session_a), (2, ?b)]\<rparr>
      = \<lparr>sessions = [(2, ?b)]\<rparr>"
    by (simp add: remove_session_def session_a_def SessionInitiator_def SessionRecipient_def
        remote_node_id_def node_a_def node_b_def Let_def)
  define p where "p = run [CreateSession 7 0 node_a True, CreateSession 8 1 node_a False,
        CreateSession 9 2 node_b False, HasSession 1, GetSession 2,
        GetIdleSessions 60 100, RemoveSession 7] Pool_init"
  have eq: "p = \<lparr>sessions = [(2, ?b)]\<rparr>"
    unfolding p_def run_def by (simp only: fold_simps o_apply id_apply s1 s2 s3 s4 s5 s6 s7)
  have "(2, ?b) \<in> set (sessions p)" unfolding eq by simp
  with pool_one_session_per_remote_node[OF p_def]
  have "remote_node_id ?b = 2" by blast
  with eq show ?thesis unfolding p_def by simp
qed

text \<open>
  C9. When the pool holds no session for \<open>n.node_id\<close>, \<open>create_session\<close> returns a session;
  in the pool afterwards \<open>has_session(n.node_id)\<close> is true and \<open>get_session(n.node_id)\<close>
  returns that same session, which is an initiator session when \<open>is_initiator\<close> is true and
  a recipient session otherwise.
\<close>

theorem create_then_get_roundtrip:
  assumes "node_id n \<notin> fst ` set (sessions p)"
    and "create_session sid t n ini p = (r, p')"
  shows "\<exists>s. r = Inr s \<and> has_session (node_id n) p' = (True, p') \<and>
             get_session (node_id n) p' = (Inr s, p') \<and>
             role s = (if ini then Initiator else Recipient)"
  using assms
  by (auto simp: create_session_def has_session_def get_session_def Let_def update_conv'
      dom_update SessionInitiator_def SessionRecipient_def)

theorem create_then_get_roundtrip_witness:
  "node_id node_b \<notin> fst ` set (sessions pool_a) \<and>
   (\<exists>s r p'. create_session 8 5 node_b True pool_a = (r, p') \<and> r = Inr s \<and>
      has_session (node_id node_b) p' = (True, p') \<and>
      get_session (node_id node_b) p' = (Inr s, p') \<and> role s = Initiator)"
proof -
  have new: "node_id node_b \<notin> fst ` set (sessions pool_a)"
    by (simp add: node_b_def pool_a_def)
  obtain r p' where c: "create_session 8 5 node_b True pool_a = (r, p')"
    by (cases "create_session 8 5 node_b True pool_a")
  from create_then_get_roundtrip[OF new c] new c show ?thesis by auto
qed

section \<open>Properties of the routing-table manager\<close>

subsection \<open>The ping loop\<close>

lemma ping_candidates_split:
  "ping_candidates answers T ep cs rt =
     (map (\<lambda>n. PingWithTimeout (Node n (ep n)) T)
        (takeWhile (\<lambda>n. \<not> answers (Node n (ep n)) T) cs @
         take 1 (dropWhile (\<lambda>n. \<not> answers (Node n (ep n)) T) cs)),
      fold remove (takeWhile (\<lambda>n. \<not> answers (Node n (ep n)) T) cs) rt)"
  by (induction cs arbitrary: rt) (simp_all add: Let_def)

lemma remove_bucket_head:
  assumes "buckets rt d = q # others" and "q \<notin> set others"
  shows "buckets (remove q rt) d =
           others @ (if replacement_caches rt d = [] then [] else [last (replacement_caches rt d)])"
    and "replacement_caches (remove q rt) d = butlast (replacement_caches rt d)"
  using assms by (simp_all add: remove_def)

lemma fold_remove_bucket:
  assumes "buckets rt d = qs @ tail"
    and "distinct (qs @ tail @ replacement_caches rt d)"
  shows "\<exists>promoted. buckets (fold remove qs rt) d = tail @ promoted \<and>
           set promoted \<subseteq> set (replacement_caches rt d)"
  using assms
proof (induction qs arbitrary: rt tail)
  case Nil
  then show ?case by simp
next
  case (Cons q qs)
  let ?R = "replacement_caches rt d"
  let ?promo = "if ?R = [] then [] else [last ?R]"
  have q: "q \<notin> set (qs @ tail)" using Cons.prems(2) by simp
  have b: "buckets (remove q rt) d = qs @ (tail @ ?promo)"
    using remove_bucket_head(1)[of rt d q "qs @ tail"] Cons.prems(1) q by simp
  have r: "replacement_caches (remove q rt) d = butlast ?R"
    using remove_bucket_head(2)[of rt d q "qs @ tail"] Cons.prems(1) q by simp
  have split: "?R = butlast ?R @ ?promo" by simp
  have "distinct (qs @ tail @ ?R)" using Cons.prems(2) by simp
  then have "distinct (qs @ tail @ butlast ?R @ ?promo)" using split by simp
  then have dist: "distinct (qs @ (tail @ ?promo) @ replacement_caches (remove q rt) d)"
    unfolding r by auto
  from Cons.IH[OF b dist] obtain promoted where
    p: "buckets (fold remove qs (remove q rt)) d = (tail @ ?promo) @ promoted"
       "set promoted \<subseteq> set (butlast ?R)"
    unfolding r by blast
  have "set (butlast ?R) \<subseteq> set ?R" by (meson in_set_butlastD subsetI)
  moreover have "set ?promo \<subseteq> set ?R" by simp
  ultimately have "set (?promo @ promoted) \<subseteq> set ?R" using p(2) by auto
  moreover have "buckets (fold remove (q # qs) rt) d = tail @ (?promo @ promoted)"
    using p(1) by simp
  ultimately show ?case by blast
qed

lemma is_empty_iff:
  "is_empty rt \<longleftrightarrow> (\<forall>d. 1 \<le> d \<and> d \<le> NUM_BUCKETS \<longrightarrow> buckets rt d = [])"
  by (auto simp: is_empty_def list_all_iff)

lemma ping_round_on_bucket:
  assumes "\<not> is_empty rt" and "1 \<le> lru rt" and "lru rt \<le> NUM_BUCKETS"
  shows "ping_occasionally lru answers T ep rt =
     Some (map (\<lambda>n. PingWithTimeout (Node n (ep n)) T)
            (takeWhile (\<lambda>n. \<not> answers (Node n (ep n)) T) (buckets rt (lru rt)) @
             take 1 (dropWhile (\<lambda>n. \<not> answers (Node n (ep n)) T) (buckets rt (lru rt)))),
           fold remove (takeWhile (\<lambda>n. \<not> answers (Node n (ep n)) T) (buckets rt (lru rt))) rt)"
  using assms
  by (simp add: ping_occasionally_def get_nodes_at_log_distance_def Let_def ping_candidates_split)

text \<open>
  C5. In a round on a non-empty table, with \<open>d\<close> the log-distance the table names as least
  recently updated and the bucket at \<open>d\<close> free of duplicates and of its own replacement
  candidates: pings go, each under \<open>PING_TIMEOUT\<close>, to the members of the bucket from the
  oldest on, up to and including the first one that answers; \<open>remove\<close> is applied to exactly
  the silent members before it; afterwards the bucket holds none of them and still holds,
  in order, the first responder and every newer member, followed by what was promoted from
  the replacement cache. When nobody answers, no member of the bucket is left in it.
\<close>

theorem ping_round_evicts_until_first_pong:
  assumes "\<not> is_empty rt"
    and "d = lru rt" and "1 \<le> d" and "d \<le> NUM_BUCKETS"
    and "distinct (buckets rt d @ replacement_caches rt d)"
    and "quiet = takeWhile (\<lambda>n. \<not> answers (Node n (ep n)) T) (buckets rt d)"
    and "rest = dropWhile (\<lambda>n. \<not> answers (Node n (ep n)) T) (buckets rt d)"
  shows "\<exists>rt' promoted.
           ping_occasionally lru answers T ep rt =
             Some (map (\<lambda>n. PingWithTimeout (Node n (ep n)) T) (quiet @ take 1 rest), rt') \<and>
           rt' = fold remove quiet rt \<and>
           buckets rt' d = rest @ promoted \<and>
           set promoted \<subseteq> set (replacement_caches rt d) \<and>
           set quiet \<inter> set (buckets rt' d) = {} \<and>
           (rest = [] \<longrightarrow> set (buckets rt d) \<inter> set (buckets rt' d) = {})"
proof -
  have round: "ping_occasionally lru answers T ep rt =
      Some (map (\<lambda>n. PingWithTimeout (Node n (ep n)) T) (quiet @ take 1 rest), fold remove quiet rt)"
    using ping_round_on_bucket[of rt lru answers T ep] assms(1-4,6,7) by simp
  have bucket: "buckets rt d = quiet @ rest" unfolding assms(6,7) by simp
  have dist: "distinct (quiet @ rest @ replacement_caches rt d)"
    using assms(5) unfolding bucket by simp
  from fold_remove_bucket[OF bucket dist] obtain promoted where
    p: "buckets (fold remove quiet rt) d = rest @ promoted"
       "set promoted \<subseteq> set (replacement_caches rt d)"
    by blast
  have gone: "set quiet \<inter> set (rest @ promoted) = {}"
    using dist p(2) by auto
  have "rest = [] \<longrightarrow> set (buckets rt d) \<inter> set (buckets (fold remove quiet rt) d) = {}"
    using gone unfolding bucket p(1) by auto
  with round p gone show ?thesis by auto
qed

theorem ping_round_evicts_until_first_pong_witness:
  "\<not> is_empty table_a \<and>
   distinct (buckets table_a 255 @ replacement_caches table_a 255) \<and>
   (\<exists>rt'. ping_occasionally (\<lambda>rt. 255) (\<lambda>n t. node_id n = 11) 1 endpoint_a table_a =
       Some ([PingWithTimeout (Node 10 (endpoint_a 10)) 1,
              PingWithTimeout (Node 11 (endpoint_a 11)) 1], rt') \<and>
      rt' = remove 10 table_a \<and>
      10 \<notin> set (buckets rt' 255) \<and>
      (\<exists>promoted. buckets rt' 255 = [11, 12] @ promoted)) \<and>
   (\<exists>rt'. ping_occasionally (\<lambda>rt. 255) (\<lambda>n t. False) 1 endpoint_a table_a =
       Some ([PingWithTimeout (Node 10 (endpoint_a 10)) 1,
              PingWithTimeout (Node 11 (endpoint_a 11)) 1,
              PingWithTimeout (Node 12 (endpoint_a 12)) 1], rt') \<and>
      set [10, 11, 12] \<inter> set (buckets rt' 255) = {})"
proof -
  have ne: "\<not> is_empty table_a"
    unfolding is_empty_iff by (rule notI, drule spec[of _ 255]) (simp add: table_a_def NUM_BUCKETS_def)
  have lo: "(1::nat) \<le> 255" by simp
  have hi: "255 \<le> NUM_BUCKETS" by (simp add: NUM_BUCKETS_def)
  have b: "buckets table_a 255 = [10, 11, 12]" by (simp add: table_a_def)
  have dist: "distinct (buckets table_a 255 @ replacement_caches table_a 255)"
    by (simp add: table_a_def)
  have q1: "[10] = takeWhile (\<lambda>n. \<not> node_id (Node n (endpoint_a n)) = 11) (buckets table_a 255)"
    unfolding b by simp
  have r1: "[11, 12] = dropWhile (\<lambda>n. \<not> node_id (Node n (endpoint_a n)) = 11) (buckets table_a 255)"
    unfolding b by simp
  have q2: "[10, 11, 12] = takeWhile (\<lambda>n. \<not> False) (buckets table_a 255)"
    unfolding b by simp
  have r2: "[] = dropWhile (\<lambda>n. \<not> False) (buckets table_a 255)"
    unfolding b by simp
  from ping_round_evicts_until_first_pong
         [of table_a 255 "\<lambda>rt. 255" "[10]" "\<lambda>n t. node_id n = 11" endpoint_a 1 "[11, 12]",
          OF ne refl lo hi dist q1 r1]
  have first: "\<exists>rt'. ping_occasionally (\<lambda>rt. 255) (\<lambda>n t. node_id n = 11) 1 endpoint_a table_a =
       Some ([PingWithTimeout (Node 10 (endpoint_a 10)) 1,
              PingWithTimeout (Node 11 (endpoint_a 11)) 1], rt') \<and>
      rt' = remove 10 table_a \<and>
      10 \<notin> set (buckets rt' 255) \<and>
      (\<exists>promoted. buckets rt' 255 = [11, 12] @ promoted)"
    by auto
  from ping_round_evicts_until_first_pong
         [of table_a 255 "\<lambda>rt. 255" "[10, 11, 12]" "\<lambda>n t. False" endpoint_a 1 "[]",
          OF ne refl lo hi dist q2 r2]
  have second: "\<exists>rt'. ping_occasionally (\<lambda>rt. 255) (\<lambda>n t. False) 1 endpoint_a table_a =
       Some ([PingWithTimeout (Node 10 (endpoint_a 10)) 1,
              PingWithTimeout (Node 11 (endpoint_a 11)) 1,
              PingWithTimeout (Node 12 (endpoint_a 12)) 1], rt') \<and>
      set [10, 11, 12] \<inter> set (buckets rt' 255) = {}"
    by auto
  from ne dist first second show ?thesis by blast
qed

subsection \<open>The responders\<close>




text \<open>
  C7. The ping responder answers the received \<open>Ping\<close> messages one for one and in order:
  as many calls of \<open>send_pong\<close> as messages, the one for a message going to the node that
  sent it and carrying its \<open>request_id\<close>.
\<close>

theorem pong_echoes_request_id:
  "length (pong_when_pinged inbound) = length inbound \<and>
   (\<forall>i < length inbound.
      pong_when_pinged inbound ! i =
        SendPong (node (inbound ! i)) (Ping.request_id (payload (inbound ! i))))"
proof (induction inbound)
  case Nil
  then show ?case by simp
next
  case (Cons request inbound)
  then show ?case by (auto simp: nth_Cons split: nat.splits)
qed

theorem pong_echoes_request_id_witness:
  "length (pong_when_pinged [ping_a, ping_b]) = 2 \<and>
   pong_when_pinged [ping_a, ping_b] ! 0 = SendPong node_a 16909060 \<and>
   pong_when_pinged [ping_a, ping_b] ! 1 = SendPong node_b 5"
proof -
  from pong_echoes_request_id[of "[ping_a, ping_b]"]
  have len: "length (pong_when_pinged [ping_a, ping_b]) = length [ping_a, ping_b]"
    and nth: "\<And>i. i < length [ping_a, ping_b] \<Longrightarrow>
      pong_when_pinged [ping_a, ping_b] ! i =
        SendPong (node ([ping_a, ping_b] ! i)) (Ping.request_id (payload ([ping_a, ping_b] ! i)))"
    by blast+
  have "pong_when_pinged [ping_a, ping_b] ! 0 = SendPong node_a 16909060"
    using nth[of 0] by (simp add: ping_a_def)
  moreover have "pong_when_pinged [ping_a, ping_b] ! 1 = SendPong node_b 5"
    using nth[of 1] by (simp add: ping_b_def)
  ultimately show ?thesis using len by simp
qed

subsection \<open>Rounds on an empty table\<close>

text \<open>
  C10. In a round in which \<open>routing_table.is_empty\<close> holds, the lookup daemon starts no
  iterative lookup and no node verification, and the ping daemon sends no ping and leaves
  the routing table as it is.
\<close>

theorem daemons_idle_on_empty_table:
  assumes "is_empty rt"
  shows "lookup_occasionally target_node_id found rt = [] \<and>
         ping_occasionally lru answers T ep rt = Some ([], rt)"
  using assms by (simp add: lookup_occasionally_def ping_occasionally_def)

theorem daemons_idle_on_empty_table_witness:
  "is_empty table_empty \<and>
   lookup_occasionally 77 (\<lambda>target. [node_a, node_b]) table_empty = [] \<and>
   ping_occasionally (\<lambda>rt. 255) (\<lambda>n t. False) 1 endpoint_a table_empty = Some ([], table_empty)"
proof -
  have e: "is_empty table_empty" by (simp add: is_empty_iff table_empty_def)
  from daemons_idle_on_empty_table[OF e, of 77 "\<lambda>target. [node_a, node_b]" "\<lambda>rt. 255" "\<lambda>n t. False" 1 endpoint_a] e
  show ?thesis by simp
qed

end
